theory Spec2Isabelle
  imports Complex_Main
begin

section \<open>Python values shared by the renderers\<close>

text \<open>
  Times are Python floats in the source; they are modelled as \<^typ>\<open>real\<close>, so a
  statement below is about exact arithmetic unless it names the rounded functions of the
  section on rounded arithmetic. Strings are \<^typ>\<open>string\<close>; \<open>len\<close> is
  \<^const>\<open>length\<close>. A float division by zero raises \<open>ZeroDivisionError\<close> in Python and
  is a value of the error type here.
\<close>

datatype error = ZeroDivisionError

definition py_div :: "real \<Rightarrow> real \<Rightarrow> error + real" where
  "py_div a b = (if b = 0 then Inl ZeroDivisionError else Inr (a / b))"

text \<open>
  \<open>str.isspace\<close> restricted to ASCII: tab, line feed, vertical tab, form feed, carriage
  return, the four separators \<open>0x1c..0x1f\<close> and the blank.
\<close>

definition is_space :: "char \<Rightarrow> bool" where
  "is_space c = (let n = (of_char c :: nat) in (9 \<le> n \<and> n \<le> 13) \<or> (28 \<le> n \<and> n \<le> 32))"

text \<open>
  \<open>str.split()\<close> without argument: the maximal runs of non-whitespace characters, in
  order. \<open>cur\<close> is the run being read.
\<close>

fun split_from :: "string \<Rightarrow> string \<Rightarrow> string list" where
  "split_from cur [] = (if cur = [] then [] else [cur])"
| "split_from cur (c # cs) =
     (if is_space c then (if cur = [] then split_from [] cs else cur # split_from [] cs)
      else split_from (cur @ [c]) cs)"

definition py_split :: "string \<Rightarrow> string list" where
  "py_split s = split_from [] s"

text \<open>\<open>str.strip()\<close>: leading and trailing whitespace removed.\<close>

definition py_strip :: "string \<Rightarrow> string" where
  "py_strip s = rev (dropWhile is_space (rev (dropWhile is_space s)))"

section \<open>typewriter\_avatar\_renderer.py\<close>

text \<open>
  The two dataclasses. The fields \<open>start_time\<close>, \<open>end_time\<close> and \<open>text\<close> of
  \<open>LineData\<close> carry the prefix \<open>line_\<close>, since a field name is a constant of the
  theory and \<open>WordTiming\<close> has the first two already.
\<close>

record WordTiming =
  word :: string
  start_time :: real
  end_time :: real
  char_positions :: "real list"

record LineData =
  words :: "WordTiming list"
  line_start_time :: real
  line_end_time :: real
  line_text :: string
  max_chars :: nat

text \<open>
  The attributes of \<open>TypewriterAvatarRenderer\<close> that the timing code reads, and the
  values \<open>__init__\<close> gives them.
\<close>

record TypewriterAvatarRenderer =
  max_lines :: int
  max_chars_per_line :: int
  fade_duration :: real

definition init_renderer :: TypewriterAvatarRenderer where
  "init_renderer = \<lparr>max_lines = 3, max_chars_per_line = 60, fade_duration = 1 / 2\<rparr>"

subsection \<open>\_estimate\_char\_timings\<close>

text \<open>The \<open>for i in range(char_count)\<close> loop, over the indices still to visit.\<close>

fun char_timings_loop :: "real \<Rightarrow> real \<Rightarrow> nat \<Rightarrow> nat list \<Rightarrow> error + real list" where
  "char_timings_loop start duration char_count [] = Inr []"
| "char_timings_loop start duration char_count (i # is) =
     (case py_div (duration * real i) (real char_count) of
        Inl e \<Rightarrow> Inl e
      | Inr q \<Rightarrow>
          (case char_timings_loop start duration char_count is of
             Inl e \<Rightarrow> Inl e
           | Inr timings \<Rightarrow> Inr ((start + q) # timings)))"

definition estimate_char_timings :: "string \<Rightarrow> real \<Rightarrow> real \<Rightarrow> error + real list" where
  "estimate_char_timings w start end =
     (let duration = end - start; char_count = length w
      in if char_count = 0 then Inr []
         else char_timings_loop start duration char_count [0..<char_count])"

subsection \<open>\_estimate\_word\_timings\<close>

text \<open>
  The \<open>for word in words\<close> loop: \<open>current_time\<close> is threaded through, each word ends
  where the next one starts.
\<close>

fun word_timings_loop :: "real \<Rightarrow> real \<Rightarrow> string list \<Rightarrow> error + WordTiming list" where
  "word_timings_loop avg_word_duration current_time [] = Inr []"
| "word_timings_loop avg_word_duration current_time (w # ws) =
     (let word_duration = avg_word_duration * (real (length w) / 5);
          end = current_time + word_duration
      in case estimate_char_timings w current_time end of
           Inl e \<Rightarrow> Inl e
         | Inr cps \<Rightarrow>
             (case word_timings_loop avg_word_duration end ws of
                Inl e \<Rightarrow> Inl e
              | Inr rest \<Rightarrow>
                  Inr (\<lparr>word = w, start_time = current_time, end_time = end,
                        char_positions = cps\<rparr> # rest)))"

definition estimate_word_timings :: "string \<Rightarrow> real \<Rightarrow> error + WordTiming list" where
  "estimate_word_timings text_in audio_duration =
     (let ws = py_split text_in
      in if ws = [] then Inr []
         else (case py_div audio_duration (real (length ws)) of
                 Inl e \<Rightarrow> Inl e
               | Inr avg_word_duration \<Rightarrow> word_timings_loop avg_word_duration 0 ws))"

subsection \<open>organize\_text\_into\_lines\<close>

text \<open>
  The loop state is \<open>(lines, current_line_words, current_line_text, current_line_start)\<close>;
  \<open>organize_step\<close> is one iteration of \<open>for word_timing in word_timings\<close>.
\<close>

type_synonym organize_state = "LineData list \<times> WordTiming list \<times> string \<times> real"

fun organize_step :: "TypewriterAvatarRenderer \<Rightarrow> organize_state \<Rightarrow> WordTiming \<Rightarrow> organize_state" where
  "organize_step R (lines, current_line_words, current_line_text, current_line_start) wt =
     (let test_text = (if current_line_text \<noteq> [] then current_line_text @ '' '' @ word wt
                       else word wt)
      in if int (length test_text) > max_chars_per_line R \<and> current_line_words \<noteq> []
         then (lines @ [\<lparr>words = current_line_words,
                          line_start_time = current_line_start,
                          line_end_time = start_time wt,
                          line_text = current_line_text,
                          max_chars = length current_line_text\<rparr>],
               [wt], word wt, start_time wt)
         else (lines, current_line_words @ [wt], test_text, current_line_start))"

definition organize_text_into_lines :: "TypewriterAvatarRenderer \<Rightarrow> WordTiming list \<Rightarrow> LineData list" where
  "organize_text_into_lines R word_timings =
     (case foldl (organize_step R) ([], [], [], 0) word_timings of
        (lines, current_line_words, current_line_text, current_line_start) \<Rightarrow>
          if current_line_words \<noteq> []
          then lines @ [\<lparr>words = current_line_words,
                          line_start_time = current_line_start,
                          line_end_time = (if word_timings \<noteq> [] then end_time (last word_timings)
                                           else current_line_start),
                          line_text = current_line_text,
                          max_chars = length current_line_text\<rparr>]
          else lines)"

subsection \<open>extract\_word\_timings\<close>

text \<open>
  The speech recogniser is outside the program. Its answer is a parameter: either the
  import fails (\<open>NotInstalled\<close>, the \<open>except ImportError\<close> branch) or it returns
  segments of \<open>(word, start, end)\<close> entries. \<open>audio_duration\<close> stands for what
  \<open>_get_audio_duration\<close> reads from the file. The stored word is stripped; the
  character timings are computed from the word as the recogniser gave it.
\<close>

type_synonym word_info = "string \<times> real \<times> real"

datatype whisper = NotInstalled | Transcribed "word_info list list"

fun word_infos_loop :: "word_info list \<Rightarrow> error + WordTiming list" where
  "word_infos_loop [] = Inr []"
| "word_infos_loop ((w, s, e) # rest) =
     (case estimate_char_timings w s e of
        Inl err \<Rightarrow> Inl err
      | Inr cps \<Rightarrow>
          (case word_infos_loop rest of
             Inl err \<Rightarrow> Inl err
           | Inr others \<Rightarrow>
               Inr (\<lparr>word = py_strip w, start_time = s, end_time = e,
                     char_positions = cps\<rparr> # others)))"

definition extract_word_timings :: "whisper \<Rightarrow> real \<Rightarrow> string \<Rightarrow> error + WordTiming list" where
  "extract_word_timings recogniser audio_duration text_in =
     (case recogniser of
        Transcribed segments \<Rightarrow> word_infos_loop (concat segments)
      | NotInstalled \<Rightarrow> estimate_word_timings text_in audio_duration)"

subsection \<open>get\_visible\_lines\_at\_time\<close>

text \<open>
  \<open>fade_progress_of\<close> is the body of the loop up to the \<open>append\<close>: \<open>None\<close> where
  the line is skipped (not yet visible, or faded out and \<open>continue\<close>), the fade progress
  otherwise.
\<close>

definition fade_progress_of :: "TypewriterAvatarRenderer \<Rightarrow> LineData \<Rightarrow> real \<Rightarrow> error + real option" where
  "fade_progress_of R line time =
     (if time \<ge> line_start_time line - fade_duration R then
        (if time < line_start_time line then
           (case py_div (time - (line_start_time line - fade_duration R)) (fade_duration R) of
              Inl e \<Rightarrow> Inl e
            | Inr fade_progress \<Rightarrow> Inr (Some fade_progress))
         else if time > line_end_time line then
           (case py_div (time - line_end_time line) (fade_duration R) of
              Inl e \<Rightarrow> Inl e
            | Inr q \<Rightarrow> (let fade_progress = 1 - q
                        in if fade_progress \<le> 0 then Inr None else Inr (Some fade_progress)))
         else Inr (Some 1))
      else Inr None)"

text \<open>The loop over the lines, with its \<open>break\<close> once \<open>max_lines\<close> entries are held.\<close>

fun visible_loop ::
  "TypewriterAvatarRenderer \<Rightarrow> real \<Rightarrow> (LineData \<times> real) list \<Rightarrow> LineData list
     \<Rightarrow> error + (LineData \<times> real) list" where
  "visible_loop R time visible_lines [] = Inr visible_lines"
| "visible_loop R time visible_lines (line # rest) =
     (case fade_progress_of R line time of
        Inl e \<Rightarrow> Inl e
      | Inr None \<Rightarrow> visible_loop R time visible_lines rest
      | Inr (Some fade_progress) \<Rightarrow>
          (let visible_lines' = visible_lines @ [(line, fade_progress)]
           in if int (length visible_lines') \<ge> max_lines R then Inr visible_lines'
              else visible_loop R time visible_lines' rest))"

definition get_visible_lines_at_time ::
  "TypewriterAvatarRenderer \<Rightarrow> LineData list \<Rightarrow> real \<Rightarrow> error + (LineData \<times> real) list" where
  "get_visible_lines_at_time R lines time = visible_loop R time [] lines"

subsection \<open>get\_typing\_progress\<close>

text \<open>
  The inner loop counts the leading character times that have passed and stops at the
  first one that has not.
\<close>

fun typed_prefix :: "real \<Rightarrow> real list \<Rightarrow> nat" where
  "typed_prefix time [] = 0"
| "typed_prefix time (char_time # rest) =
     (if time \<ge> char_time then 1 + typed_prefix time rest else 0)"

text \<open>
  What one word adds to \<open>typed_chars\<close>. The source also sums \<open>total_chars\<close>, which it
  never reads.
\<close>

definition typed_of_word :: "real \<Rightarrow> WordTiming \<Rightarrow> nat" where
  "typed_of_word time w =
     (if time \<ge> end_time w then length (word w)
      else if time \<ge> start_time w then typed_prefix time (char_positions w)
      else 0)"

definition get_typing_progress :: "LineData \<Rightarrow> real \<Rightarrow> nat" where
  "get_typing_progress line time =
     (if time < line_start_time line then 0
      else (let typed_chars = foldl (\<lambda>typed w. typed + typed_of_word time w) 0 (words line)
            in min typed_chars (length (line_text line))))"

section \<open>semantic\_animator.py\<close>

text \<open>Lower case of ASCII letters (\<open>str.lower\<close>), \<open>" ".join\<close> and the \<open>in\<close> test on strings.\<close>

definition lower_char :: "char \<Rightarrow> char" where
  "lower_char c = (let n = (of_char c :: nat) in if 65 \<le> n \<and> n \<le> 90 then char_of (n + 32) else c)"

definition py_lower :: "string \<Rightarrow> string" where
  "py_lower s = map lower_char s"

fun join_space :: "string list \<Rightarrow> string" where
  "join_space [] = []"
| "join_space [w] = w"
| "join_space (w # ws) = w @ '' '' @ join_space ws"

fun starts_with :: "string \<Rightarrow> string \<Rightarrow> bool" where
  "starts_with s [] = True"
| "starts_with [] (k # ks) = False"
| "starts_with (c # cs) (k # ks) = (c = k \<and> starts_with cs ks)"

fun contains :: "string \<Rightarrow> string \<Rightarrow> bool" where
  "contains [] k = (k = [])"
| "contains (c # cs) k = (starts_with (c # cs) k \<or> contains cs k)"

text \<open>
  \<open>[xs[j:j+n] for j in range(0, len(xs), n)]\<close>. Both callers pass a step of at least 2;
  a step of 0, on which \<open>range\<close> raises, gives no slice here.
\<close>

function slices :: "nat \<Rightarrow> 'a list \<Rightarrow> 'a list list" where
  "slices n xs = (if n = 0 \<or> xs = [] then [] else take n xs # slices n (drop n xs))"
  by pat_completeness auto
termination
  by (relation "measure (\<lambda>(n, xs). length xs)") auto

declare slices.simps [simp del]

text \<open>
  One entry of \<open>animation_mappings\<close>, its four keys prefixed with \<open>anim_\<close>; the
  dictionary keeps insertion order, so it is a list of pairs. Strings with an emoji hold
  its UTF-8 bytes.
\<close>

record anim_data =
  anim_keywords :: "string list"
  anim_animation :: string
  anim_emoji :: string
  anim_color :: "nat \<times> nat \<times> nat"

record SemanticAnimator =
  animation_duration :: real
  animation_mappings :: "(string \<times> anim_data) list"

definition init_animator :: SemanticAnimator where
  "init_animator = \<lparr>animation_duration = 2, animation_mappings = [
     (''function'', \<lparr>anim_keywords = [''function'', ''def '', ''method'', ''call'', ''invoke''],
        anim_animation = ''function_call'',
        anim_emoji = [CHR 0xF0, CHR 0x9F, CHR 0x94, CHR 0xA7], anim_color = (255, 100, 100)\<rparr>),
     (''loop'', \<lparr>anim_keywords = [''loop'', ''for '', ''while '', ''iterate'', ''repeat''],
        anim_animation = ''loop_spin'',
        anim_emoji = [CHR 0xF0, CHR 0x9F, CHR 0x94, CHR 0x84], anim_color = (100, 255, 100)\<rparr>),
     (''condition'', \<lparr>anim_keywords = [''if '', ''else'', ''condition'', ''check'', ''compare''],
        anim_animation = ''condition_check'',
        anim_emoji = [CHR 0xF0, CHR 0x9F, CHR 0xA4, CHR 0x94], anim_color = (100, 100, 255)\<rparr>),
     (''recursion'', \<lparr>anim_keywords = [''recursion'', ''recursive'', ''call itself'', ''base case''],
        anim_animation = ''recursion_tree'',
        anim_emoji = [CHR 0xF0, CHR 0x9F, CHR 0x8C, CHR 0xB3], anim_color = (255, 200, 100)\<rparr>),
     (''array'', \<lparr>anim_keywords = [''array'', ''list'', ''element'', ''index'', ''position''],
        anim_animation = ''array_highlight'',
        anim_emoji = [CHR 0xF0, CHR 0x9F, CHR 0x93, CHR 0x8A], anim_color = (200, 100, 255)\<rparr>),
     (''swap'', \<lparr>anim_keywords = [''swap'', ''exchange'', ''switch'', ''interchange''],
        anim_animation = ''swap_values'',
        anim_emoji = [CHR 0xF0, CHR 0x9F, CHR 0x94, CHR 0x84], anim_color = (255, 150, 50)\<rparr>),
     (''sort'', \<lparr>anim_keywords = [''sort'', ''order'', ''arrange'', ''bubble'', ''quick''],
        anim_animation = ''sort_animation'',
        anim_emoji = [CHR 0xF0, CHR 0x9F, CHR 0x93, CHR 0x88], anim_color = (100, 255, 200)\<rparr>),
     (''search'', \<lparr>anim_keywords = [''search'', ''find'', ''lookup'', ''binary'', ''linear''],
        anim_animation = ''search_scan'',
        anim_emoji = [CHR 0xF0, CHR 0x9F, CHR 0x94, CHR 0x8D], anim_color = (255, 100, 200)\<rparr>),
     (''stack'', \<lparr>anim_keywords = [''stack'', ''push'', ''pop'', ''LIFO'', ''last in''],
        anim_animation = ''stack_push_pop'',
        anim_emoji = [CHR 0xF0, CHR 0x9F, CHR 0x93, CHR 0x9A], anim_color = (150, 255, 100)\<rparr>),
     (''queue'', \<lparr>anim_keywords = [''queue'', ''enqueue'', ''dequeue'', ''FIFO'', ''first in''],
        anim_animation = ''queue_flow'',
        anim_emoji = [CHR 0xF0, CHR 0x9F, CHR 0x9A, CHR 0xB6], anim_color = (100, 150, 255)\<rparr>),
     (''pointer'', \<lparr>anim_keywords = [''pointer'', ''reference'', ''address'', ''memory''],
        anim_animation = ''pointer_move'',
        anim_emoji = [CHR 0xF0, CHR 0x9F, CHR 0x91, CHR 0x86], anim_color = (255, 255, 100)\<rparr>),
     (''error'', \<lparr>anim_keywords = [''error'', ''exception'', ''bug'', ''crash'', ''fail''],
        anim_animation = ''error_shake'',
        anim_emoji = [CHR 0xF0, CHR 0x9F, CHR 0x92, CHR 0xA5], anim_color = (255, 50, 50)\<rparr>),
     (''success'', \<lparr>anim_keywords = [''success'', ''correct'', ''working'', ''solved'', ''complete''],
        anim_animation = ''success_check'',
        anim_emoji = [CHR 0xE2, CHR 0x9C, CHR 0x85], anim_color = (50, 255, 50)\<rparr>)]\<rparr>"

text \<open>The trigger dictionaries built by \<open>analyze_narration\<close>, key by key.\<close>

record trigger =
  trigger_type :: string
  trigger_start_time :: real
  trigger_duration :: real
  trigger_text :: string
  trigger_keyword :: string
  trigger_emoji :: string
  trigger_color :: "nat \<times> nat \<times> nat"

subsection \<open>analyze\_narration\<close>

text \<open>
  The innermost loop, \<open>for keyword in anim_data['keywords']\<close>: the first keyword found in
  the segment, where the loop appends and breaks.
\<close>

fun first_keyword :: "string \<Rightarrow> string list \<Rightarrow> string option" where
  "first_keyword segment_text [] = None"
| "first_keyword segment_text (keyword # rest) =
     (if contains (py_lower segment_text) (py_lower keyword) then Some keyword
      else first_keyword segment_text rest)"

text \<open>
  The middle loop, \<open>for anim_type, anim_data in self.animation_mappings.items()\<close>: the
  \<open>break\<close> of the inner loop leaves this one running.
\<close>

fun mappings_loop :: "real \<Rightarrow> string \<Rightarrow> real \<Rightarrow> (string \<times> anim_data) list \<Rightarrow> trigger list" where
  "mappings_loop anim_duration segment_text start [] = []"
| "mappings_loop anim_duration segment_text start ((anim_type, data) # rest) =
     (case first_keyword segment_text (anim_keywords data) of
        None \<Rightarrow> mappings_loop anim_duration segment_text start rest
      | Some keyword \<Rightarrow>
          \<lparr>trigger_type = anim_type, trigger_start_time = start,
           trigger_duration = anim_duration, trigger_text = segment_text,
           trigger_keyword = keyword, trigger_emoji = anim_emoji data,
           trigger_color = anim_color data\<rparr>
          # mappings_loop anim_duration segment_text start rest)"

text \<open>The triggers of the \<open>i\<close>-th word group.\<close>

definition segment_triggers :: "SemanticAnimator \<Rightarrow> real \<Rightarrow> nat \<Rightarrow> string list \<Rightarrow> trigger list" where
  "segment_triggers A segment_duration i word_group =
     (let segment_text = join_space word_group;
          start = real i * segment_duration
      in mappings_loop (animation_duration A) segment_text start (animation_mappings A))"

fun groups_loop :: "SemanticAnimator \<Rightarrow> real \<Rightarrow> nat \<Rightarrow> string list list \<Rightarrow> trigger list" where
  "groups_loop A segment_duration i [] = []"
| "groups_loop A segment_duration i (word_group # rest) =
     segment_triggers A segment_duration i word_group
     @ groups_loop A segment_duration (Suc i) rest"

definition analyze_narration :: "SemanticAnimator \<Rightarrow> string \<Rightarrow> real \<Rightarrow> trigger list" where
  "analyze_narration A narration_text duration =
     (if narration_text = [] then []
      else (let ws = py_split narration_text;
                total_words = length ws;
                segment_duration = duration / real (max 1 (total_words div 10))
            in groups_loop A segment_duration 0 (slices 10 ws)))"

subsection \<open>create\_animation\_overlay\<close>

text \<open>
  The image is drawn by one of thirteen private methods; an overlay is recorded as the
  method called, the trigger and the progress passed to it. \<open>creator_of\<close> is the
  \<open>if/elif\<close> chain on \<open>trigger['type']\<close>.
\<close>

record overlay =
  creator :: string
  drawn_for :: trigger
  progress :: real

definition creator_of :: "string \<Rightarrow> string option" where
  "creator_of anim_type =
           (if anim_type = ''function_call'' then Some ''_create_function_call_animation''
            else if anim_type = ''loop_spin'' then Some ''_create_loop_spin_animation''
            else if anim_type = ''condition_check'' then Some ''_create_condition_check_animation''
            else if anim_type = ''recursion_tree'' then Some ''_create_recursion_tree_animation''
            else if anim_type = ''array_highlight'' then Some ''_create_array_highlight_animation''
            else if anim_type = ''swap_values'' then Some ''_create_swap_values_animation''
            else if anim_type = ''sort_animation'' then Some ''_create_sort_animation''
            else if anim_type = ''search_scan'' then Some ''_create_search_scan_animation''
            else if anim_type = ''stack_push_pop'' then Some ''_create_stack_animation''
            else if anim_type = ''queue_flow'' then Some ''_create_queue_animation''
            else if anim_type = ''pointer_move'' then Some ''_create_pointer_animation''
            else if anim_type = ''error_shake'' then Some ''_create_error_animation''
            else if anim_type = ''success_check'' then Some ''_create_success_animation''
            else None)"

definition create_animation_overlay :: "trigger \<Rightarrow> real \<Rightarrow> error + overlay option" where
  "create_animation_overlay trig time =
     (let anim_type = trigger_type trig;
          anim_start = trigger_start_time trig;
          anim_duration = trigger_duration trig
      in if time < anim_start \<or> time > anim_start + anim_duration then Inr None
         else (case py_div (time - anim_start) anim_duration of
                 Inl e \<Rightarrow> Inl e
               | Inr p \<Rightarrow>
                   (case creator_of anim_type of
                      Some c \<Rightarrow> Inr (Some \<lparr>creator = c, drawn_for = trig, progress = p\<rparr>)
                    | None \<Rightarrow> Inr None)))"

section \<open>avatar\_renderer.py\<close>

record segment =
  seg_text :: string
  seg_start :: real
  seg_duration :: real

text \<open>The five default segments of \<open>_split_narration_into_segments\<close>.\<close>

definition default_segments :: "segment list" where
  "default_segments = [
     \<lparr>seg_text = ''Hi! I'm your AI assistant! '' @ [CHR 0xF0, CHR 0x9F, CHR 0x91, CHR 0x8B],
      seg_start = 0, seg_duration = 2\<rparr>,
     \<lparr>seg_text = ''Let me explain this code step by step! '' @ [CHR 0xF0, CHR 0x9F, CHR 0x92, CHR 0xBB],
      seg_start = 2, seg_duration = 2\<rparr>,
     \<lparr>seg_text = ''This is really interesting code! '' @ [CHR 0xF0, CHR 0x9F, CHR 0xA4, CHR 0x94],
      seg_start = 4, seg_duration = 2\<rparr>,
     \<lparr>seg_text = ''Let me break it down for you! '' @ [CHR 0xE2, CHR 0x9C, CHR 0xA8],
      seg_start = 6, seg_duration = 2\<rparr>,
     \<lparr>seg_text = ''That's how it works! '' @ [CHR 0xF0, CHR 0x9F, CHR 0x8E, CHR 0x89],
      seg_start = 8, seg_duration = 2\<rparr>]"

text \<open>\<open>int(x)\<close> on a float: truncation towards zero.\<close>

definition py_int :: "real \<Rightarrow> int" where
  "py_int x = (if x \<ge> 0 then \<lfloor>x\<rfloor> else \<lceil>x\<rceil>)"

text \<open>
  The loop over the word slices: state \<open>current_time\<close> and \<open>segments\<close>, left by
  \<open>break\<close> once the audio duration is reached.
\<close>

fun segments_loop :: "real \<Rightarrow> real \<Rightarrow> real \<Rightarrow> segment list \<Rightarrow> string list list \<Rightarrow> error + segment list" where
  "segments_loop words_per_second duration current_time segments [] = Inr segments"
| "segments_loop words_per_second duration current_time segments (segment_words # rest) =
     (case py_div (real (length segment_words)) words_per_second of
        Inl e \<Rightarrow> Inl e
      | Inr actual_duration \<Rightarrow>
          (let segments' = segments @ [\<lparr>seg_text = join_space segment_words,
                                         seg_start = current_time,
                                         seg_duration = actual_duration\<rparr>];
               current_time' = current_time + actual_duration
           in if current_time' \<ge> duration then Inr segments'
              else segments_loop words_per_second duration current_time' segments' rest))"

definition adjust_last :: "real \<Rightarrow> segment list \<Rightarrow> segment list" where
  "adjust_last duration segments =
     (if segments \<noteq> [] \<and> seg_start (last segments) + seg_duration (last segments) > duration
      then butlast segments
           @ [(last segments)\<lparr>seg_duration := duration - seg_start (last segments)\<rparr>]
      else segments)"

text \<open>\<open>narration_text\<close> is \<open>None\<close> or a string; \<open>not narration_text\<close> holds for \<open>None\<close> and \<open>""\<close>.\<close>

definition split_narration_into_segments :: "string option \<Rightarrow> real \<Rightarrow> error + segment list" where
  "split_narration_into_segments narration_text duration =
     (case narration_text of
        None \<Rightarrow> Inr default_segments
      | Some t \<Rightarrow>
          if t = [] then Inr default_segments
          else (let ws = py_split t;
                    total_words = length ws;
                    estimated_duration = real total_words / (5 / 2)
                in case (if \<bar>estimated_duration - duration\<bar> > 2
                         then py_div (real total_words) duration else Inr (5 / 2)) of
                     Inl e \<Rightarrow> Inl e
                   | Inr words_per_second \<Rightarrow>
                       (let words_per_segment = max 2 (py_int (words_per_second * (6 / 5)))
                        in case segments_loop words_per_second duration 0 []
                                  (slices (nat words_per_segment) ws) of
                             Inl e \<Rightarrow> Inl e
                           | Inr segments \<Rightarrow> Inr (adjust_last duration segments))))"

section \<open>Rounded arithmetic\<close>

text \<open>
  A Python float operation returns the exact result rounded to a double. The functions
  below are \<open>_estimate_char_timings\<close> and \<open>_estimate_word_timings\<close> once more, with
  the rounding \<open>fl\<close> applied after every float subtraction, multiplication, division and
  addition of the source, in the order Python evaluates them. The conversions of
  \<open>len(...)\<close> and \<open>i\<close> to float are exact.
\<close>

definition py_div_fl :: "(real \<Rightarrow> real) \<Rightarrow> real \<Rightarrow> real \<Rightarrow> error + real" where
  "py_div_fl fl a b = (if b = 0 then Inl ZeroDivisionError else Inr (fl (a / b)))"

fun char_timings_loop_fl ::
  "(real \<Rightarrow> real) \<Rightarrow> real \<Rightarrow> real \<Rightarrow> nat \<Rightarrow> nat list \<Rightarrow> error + real list" where
  "char_timings_loop_fl fl start duration char_count [] = Inr []"
| "char_timings_loop_fl fl start duration char_count (i # is) =
     (case py_div_fl fl (fl (duration * real i)) (real char_count) of
        Inl e \<Rightarrow> Inl e
      | Inr q \<Rightarrow>
          (case char_timings_loop_fl fl start duration char_count is of
             Inl e \<Rightarrow> Inl e
           | Inr timings \<Rightarrow> Inr (fl (start + q) # timings)))"

definition estimate_char_timings_fl ::
  "(real \<Rightarrow> real) \<Rightarrow> string \<Rightarrow> real \<Rightarrow> real \<Rightarrow> error + real list" where
  "estimate_char_timings_fl fl w start end =
     (let duration = fl (end - start); char_count = length w
      in if char_count = 0 then Inr []
         else char_timings_loop_fl fl start duration char_count [0..<char_count])"

fun word_timings_loop_fl ::
  "(real \<Rightarrow> real) \<Rightarrow> real \<Rightarrow> real \<Rightarrow> string list \<Rightarrow> error + WordTiming list" where
  "word_timings_loop_fl fl avg_word_duration current_time [] = Inr []"
| "word_timings_loop_fl fl avg_word_duration current_time (w # ws) =
     (let word_duration = fl (avg_word_duration * fl (real (length w) / 5));
          end = fl (current_time + word_duration)
      in case estimate_char_timings_fl fl w current_time end of
           Inl e \<Rightarrow> Inl e
         | Inr cps \<Rightarrow>
             (case word_timings_loop_fl fl avg_word_duration end ws of
                Inl e \<Rightarrow> Inl e
              | Inr rest \<Rightarrow>
                  Inr (\<lparr>word = w, start_time = current_time, end_time = end,
                        char_positions = cps\<rparr> # rest)))"

definition estimate_word_timings_fl ::
  "(real \<Rightarrow> real) \<Rightarrow> string \<Rightarrow> real \<Rightarrow> error + WordTiming list" where
  "estimate_word_timings_fl fl text_in audio_duration =
     (let ws = py_split text_in
      in if ws = [] then Inr []
         else (case py_div_fl fl audio_duration (real (length ws)) of
                 Inl e \<Rightarrow> Inl e
               | Inr avg_word_duration \<Rightarrow> word_timings_loop_fl fl avg_word_duration 0 ws))"


section \<open>Loop invariants\<close>

text \<open>
  What holds of the lines closed so far in \<open>organize_text_into_lines\<close>: each has a word,
  each ends where the first word of the next one starts, and each but the first starts
  with its first word.
\<close>

definition lines_linked :: "LineData list \<Rightarrow> bool" where
  "lines_linked lines \<longleftrightarrow>
     (\<forall>l \<in> set lines. words l \<noteq> []) \<and>
     (\<forall>i. Suc i < length lines \<longrightarrow>
        line_end_time (lines ! i) = start_time (hd (words (lines ! Suc i))) \<and>
        line_start_time (lines ! Suc i) = start_time (hd (words (lines ! Suc i))))"

text \<open>
  The invariant of the loop state: the closed lines are linked, and once a line has been
  closed the open line has a word, begins where the last closed line ends, and
  \<open>current_line_start\<close> is the start of its first word.
\<close>

definition organize_inv :: "organize_state \<Rightarrow> bool" where
  "organize_inv st \<longleftrightarrow>
     (case st of (lines, cw, ct, cs) \<Rightarrow>
        lines_linked lines \<and>
        (lines \<noteq> [] \<longrightarrow> cw \<noteq> [] \<and> line_end_time (last lines) = start_time (hd cw)
                            \<and> cs = start_time (hd cw)))"

section \<open>The estimator\<close>

lemma char_timings_loop_Inr:
  "char_count \<noteq> 0 \<Longrightarrow>
   char_timings_loop start duration char_count js =
     Inr (map (\<lambda>i. start + duration * real i / real char_count) js)"
  by (induction js) (simp_all add: py_div_def)

lemma estimate_char_timings_Inr:
  "estimate_char_timings w start end =
     Inr (map (\<lambda>i. start + (end - start) * real i / real (length w)) [0..<length w])"
  by (simp add: estimate_char_timings_def Let_def char_timings_loop_Inr)

lemma word_timings_loop_total:
  "\<exists>wts. word_timings_loop avg cur ws = Inr wts \<and> length wts = length ws"
proof (induction ws arbitrary: cur)
  case Nil
  show ?case by simp
next
  case (Cons w ws)
  obtain rest where "word_timings_loop avg (cur + avg * (real (length w) / 5)) ws = Inr rest"
    and "length rest = length ws"
    using Cons.IH by blast
  then show ?case
    by (simp add: Let_def estimate_char_timings_Inr)
qed

lemma word_timings_loop_chain:
  "word_timings_loop avg cur ws = Inr wts \<Longrightarrow>
   (wts \<noteq> [] \<longrightarrow> start_time (hd wts) = cur) \<and>
   (\<forall>i. Suc i < length wts \<longrightarrow> start_time (wts ! Suc i) = end_time (wts ! i))"
proof (induction ws arbitrary: cur wts)
  case Nil
  then show ?case by simp
next
  case (Cons w ws)
  let ?e = "cur + avg * (real (length w) / 5)"
  obtain rest where rest: "word_timings_loop avg ?e ws = Inr rest"
    using word_timings_loop_total by blast
  with Cons.prems obtain cps where
    wts: "wts = \<lparr>word = w, start_time = cur, end_time = ?e, char_positions = cps\<rparr> # rest"
    by (auto simp: Let_def estimate_char_timings_Inr)
  from Cons.IH [OF rest] have hd_rest: "rest \<noteq> [] \<longrightarrow> start_time (hd rest) = ?e"
    and ih: "\<forall>i. Suc i < length rest \<longrightarrow> start_time (rest ! Suc i) = end_time (rest ! i)"
    by blast+
  have "start_time (wts ! Suc i) = end_time (wts ! i)" if "Suc i < length wts" for i
  proof (cases i)
    case 0
    with that wts hd_rest show ?thesis
      by (cases rest) auto
  next
    case (Suc j)
    with that wts ih show ?thesis by simp
  qed
  with wts show ?case by simp
qed

lemma word_timings_loop_last:
  "word_timings_loop avg cur ws = Inr wts \<Longrightarrow> ws \<noteq> [] \<Longrightarrow>
   end_time (last wts) = cur + avg * (real (sum_list (map length ws)) / 5)"
proof (induction ws arbitrary: cur wts)
  case Nil
  then show ?case by simp
next
  case (Cons w ws)
  let ?e = "cur + avg * (real (length w) / 5)"
  obtain rest where rest: "word_timings_loop avg ?e ws = Inr rest" and len: "length rest = length ws"
    using word_timings_loop_total by blast
  with Cons.prems obtain cps where
    wts: "wts = \<lparr>word = w, start_time = cur, end_time = ?e, char_positions = cps\<rparr> # rest"
    by (auto simp: Let_def estimate_char_timings_Inr)
  show ?case
  proof (cases ws)
    case Nil
    with len wts show ?thesis by simp
  next
    case (Cons v vs)
    with len have "rest \<noteq> []" by auto
    moreover from Cons.IH [OF rest] Cons have
      "end_time (last rest) = ?e + avg * (real (sum_list (map length ws)) / 5)" by simp
    ultimately show ?thesis using wts
      by (simp add: algebra_simps add_divide_distrib)
  qed
qed

section \<open>The segmenter\<close>

lemma organize_step_words:
  "organize_step R (lines, cw, ct, cs) wt = (lines', cw', ct', cs') \<Longrightarrow>
   concat (map words lines') @ cw' = concat (map words lines) @ cw @ [wt]"
  by (auto simp: Let_def split: if_splits)

lemma organize_foldl_words:
  "foldl (organize_step R) (lines, cw, ct, cs) wts = (lines', cw', ct', cs') \<Longrightarrow>
   concat (map words lines') @ cw' = concat (map words lines) @ cw @ wts"
proof (induction wts arbitrary: lines cw ct cs)
  case Nil
  then show ?case by simp
next
  case (Cons wt wts)
  obtain l1 w1 t1 s1 where step: "organize_step R (lines, cw, ct, cs) wt = (l1, w1, t1, s1)"
    by (cases "organize_step R (lines, cw, ct, cs) wt") blast
  from Cons.prems step have "foldl (organize_step R) (l1, w1, t1, s1) wts = (lines', cw', ct', cs')"
    by simp
  from Cons.IH [OF this] organize_step_words [OF step] show ?case
    by simp
qed

lemma organize_concat_words:
  "concat (map words (organize_text_into_lines R word_timings)) = word_timings"
proof -
  obtain lines cw ct cs
    where run: "foldl (organize_step R) ([], [], [], 0) word_timings = (lines, cw, ct, cs)"
    by (cases "foldl (organize_step R) ([], [], [], 0) word_timings") blast
  from organize_foldl_words [OF run] have "concat (map words lines) @ cw = word_timings"
    by simp
  with run show ?thesis
    by (auto simp: organize_text_into_lines_def)
qed

text \<open>
  C2. The lines returned by \<open>organize_text_into_lines\<close>, with their word lists
  concatenated in output order, are exactly the word timings that were passed in: the same
  words in the same order, none twice and none missing.
\<close>

theorem organize_text_into_lines_partition:
  "concat (map words (organize_text_into_lines R word_timings)) = word_timings"
  by (rule organize_concat_words)

lemma lines_linked_snoc:
  "lines_linked (ls @ [x]) \<longleftrightarrow>
     lines_linked ls \<and> words x \<noteq> [] \<and>
     (ls \<noteq> [] \<longrightarrow> line_end_time (last ls) = start_time (hd (words x)) \<and>
                     line_start_time x = start_time (hd (words x)))"
proof
  assume L: "lines_linked (ls @ [x])"
  have a: "lines_linked ls"
    unfolding lines_linked_def
  proof (intro conjI allI impI ballI)
    fix l assume "l \<in> set ls"
    with L show "words l \<noteq> []" by (simp add: lines_linked_def)
  next
    fix i assume i: "Suc i < length ls"
    with L have "line_end_time ((ls @ [x]) ! i) = start_time (hd (words ((ls @ [x]) ! Suc i))) \<and>
        line_start_time ((ls @ [x]) ! Suc i) = start_time (hd (words ((ls @ [x]) ! Suc i)))"
      by (simp add: lines_linked_def)
    with i show "line_end_time (ls ! i) = start_time (hd (words (ls ! Suc i)))"
      and "line_start_time (ls ! Suc i) = start_time (hd (words (ls ! Suc i)))"
      by (simp_all add: nth_append)
  qed
  have b: "words x \<noteq> []" using L by (simp add: lines_linked_def)
  have c: "line_end_time (last ls) = start_time (hd (words x)) \<and>
           line_start_time x = start_time (hd (words x))" if ne: "ls \<noteq> []"
  proof -
    from ne obtain n where n: "length ls = Suc n" by (cases ls) auto
    with L have "line_end_time ((ls @ [x]) ! n) = start_time (hd (words ((ls @ [x]) ! Suc n))) \<and>
        line_start_time ((ls @ [x]) ! Suc n) = start_time (hd (words ((ls @ [x]) ! Suc n)))"
      by (simp add: lines_linked_def)
    with n ne show ?thesis
      by (simp add: nth_append last_conv_nth)
  qed
  from a b c show "lines_linked ls \<and> words x \<noteq> [] \<and>
     (ls \<noteq> [] \<longrightarrow> line_end_time (last ls) = start_time (hd (words x)) \<and>
                     line_start_time x = start_time (hd (words x)))" by blast
next
  assume R: "lines_linked ls \<and> words x \<noteq> [] \<and>
     (ls \<noteq> [] \<longrightarrow> line_end_time (last ls) = start_time (hd (words x)) \<and>
                     line_start_time x = start_time (hd (words x)))"
  show "lines_linked (ls @ [x])"
    unfolding lines_linked_def
  proof (intro conjI allI impI ballI)
    fix l assume "l \<in> set (ls @ [x])"
    with R show "words l \<noteq> []" by (auto simp: lines_linked_def)
  next
    fix i assume i: "Suc i < length (ls @ [x])"
    show "line_end_time ((ls @ [x]) ! i) = start_time (hd (words ((ls @ [x]) ! Suc i)))"
    proof (cases "Suc i < length ls")
      case True
      with R show ?thesis by (simp add: nth_append lines_linked_def)
    next
      case False
      with i have eq: "Suc i = length ls" by simp
      then have ne: "ls \<noteq> []" by auto
      from eq have "i = length ls - 1" by simp
      with ne eq have "(ls @ [x]) ! i = last ls"
        by (simp add: nth_append last_conv_nth)
      moreover from eq have "(ls @ [x]) ! Suc i = x" by (simp add: nth_append)
      ultimately show ?thesis using R ne by simp
    qed
    show "line_start_time ((ls @ [x]) ! Suc i) = start_time (hd (words ((ls @ [x]) ! Suc i)))"
    proof (cases "Suc i < length ls")
      case True
      with R show ?thesis by (simp add: nth_append lines_linked_def)
    next
      case False
      with i have eq: "Suc i = length ls" by simp
      then have ne: "ls \<noteq> []" by auto
      from eq have "(ls @ [x]) ! Suc i = x" by (simp add: nth_append)
      then show ?thesis using R ne by simp
    qed
  qed
qed

lemma organize_step_inv:
  "organize_inv st \<Longrightarrow> organize_inv (organize_step R st wt)"
proof -
  assume inv: "organize_inv st"
  obtain lines cw ct cs where st: "st = (lines, cw, ct, cs)" by (cases st) auto
  show ?thesis
    using inv unfolding st organize_inv_def
    by (auto simp: Let_def lines_linked_snoc)
qed

lemma organize_foldl_inv:
  "organize_inv st \<Longrightarrow> organize_inv (foldl (organize_step R) st wts)"
  by (induction wts arbitrary: st) (simp_all add: organize_step_inv)

lemma organize_inv_init: "organize_inv ([], [], [], 0)"
  by (simp add: organize_inv_def lines_linked_def)

lemma organize_lines_linked: "lines_linked (organize_text_into_lines R wts)"
proof -
  obtain lines cw ct cs
    where run: "foldl (organize_step R) ([], [], [], 0) wts = (lines, cw, ct, cs)"
    by (cases "foldl (organize_step R) ([], [], [], 0) wts") blast
  have "organize_inv (lines, cw, ct, cs)"
    using organize_foldl_inv [OF organize_inv_init, of R wts] run by simp
  with run show ?thesis
    by (auto simp: organize_text_into_lines_def organize_inv_def lines_linked_snoc)
qed

lemma organize_last_line:
  assumes "wts \<noteq> []"
  shows "organize_text_into_lines R wts \<noteq> [] \<and>
         line_end_time (last (organize_text_into_lines R wts)) = end_time (last wts) \<and>
         last (words (last (organize_text_into_lines R wts))) = last wts"
proof -
  obtain lines cw ct cs
    where run: "foldl (organize_step R) ([], [], [], 0) wts = (lines, cw, ct, cs)"
    by (cases "foldl (organize_step R) ([], [], [], 0) wts") blast
  have inv: "organize_inv (lines, cw, ct, cs)"
    using organize_foldl_inv [OF organize_inv_init, of R wts] run by simp
  from organize_foldl_words [OF run] have cat: "concat (map words lines) @ cw = wts" by simp
  have "cw \<noteq> []"
  proof
    assume "cw = []"
    with inv have "lines = []" by (auto simp: organize_inv_def)
    with cat \<open>cw = []\<close> assms show False by simp
  qed
  with cat have "last wts = last cw" by (metis last_appendR)
  with run \<open>cw \<noteq> []\<close> assms show ?thesis
    by (simp add: organize_text_into_lines_def)
qed

section \<open>Word timings of the estimator\<close>

lemma py_split_Hi_there: "py_split ''Hi there'' = [''Hi'', ''there'']"
  by code_simp

text \<open>
  C10. For every narration text and every duration the estimator returns one timing per
  word; the first word starts at 0 and every later word starts exactly where the word
  before it ends.
\<close>

theorem estimate_word_timings_contiguous:
  "\<exists>wts. estimate_word_timings text_in audio_duration = Inr wts \<and>
         length wts = length (py_split text_in) \<and>
         (wts \<noteq> [] \<longrightarrow> start_time (hd wts) = 0) \<and>
         (\<forall>i. Suc i < length wts \<longrightarrow> start_time (wts ! Suc i) = end_time (wts ! i))"
proof (cases "py_split text_in = []")
  case True
  then show ?thesis by (simp add: estimate_word_timings_def)
next
  case False
  let ?avg = "audio_duration / real (length (py_split text_in))"
  obtain wts where run: "word_timings_loop ?avg 0 (py_split text_in) = Inr wts"
    and len: "length wts = length (py_split text_in)"
    using word_timings_loop_total by blast
  from False run have "estimate_word_timings text_in audio_duration = Inr wts"
    by (simp add: estimate_word_timings_def py_div_def)
  with len word_timings_loop_chain [OF run] show ?thesis by simp
qed

theorem estimate_word_timings_contiguous_witness:
  "\<exists>wts. estimate_word_timings ''Hi there'' 2 = Inr wts \<and> length wts = 2 \<and>
         start_time (hd wts) = 0 \<and> start_time (wts ! 1) = end_time (wts ! 0)"
proof -
  from estimate_word_timings_contiguous [of "''Hi there''" 2]
  obtain wts where a: "estimate_word_timings ''Hi there'' 2 = Inr wts"
    and b: "length wts = length (py_split ''Hi there'')"
    and c: "wts \<noteq> [] \<longrightarrow> start_time (hd wts) = 0"
    and d: "\<forall>i. Suc i < length wts \<longrightarrow> start_time (wts ! Suc i) = end_time (wts ! i)"
    by blast
  from b have len: "length wts = 2" by (simp add: py_split_Hi_there)
  then have "wts \<noteq> []" by auto
  with c have "start_time (hd wts) = 0" by simp
  moreover from d len have "start_time (wts ! 1) = end_time (wts ! 0)" by simp
  ultimately show ?thesis using a len by blast
qed

text \<open>
  In exact arithmetic the last word of a text with at least one word ends at the duration
  times the total number of characters of the words, divided by five times the number of
  words.
\<close>

lemma estimate_word_timings_last_end:
  assumes "py_split text_in \<noteq> []"
  shows "\<exists>wts. estimate_word_timings text_in audio_duration = Inr wts \<and> wts \<noteq> [] \<and>
           end_time (last wts) =
             audio_duration * real (sum_list (map length (py_split text_in)))
               / (5 * real (length (py_split text_in))) \<and>
           (sum_list (map length (py_split text_in)) = 5 * length (py_split text_in)
              \<longrightarrow> end_time (last wts) = audio_duration) \<and>
           organize_text_into_lines R wts \<noteq> [] \<and>
           line_end_time (last (organize_text_into_lines R wts)) = end_time (last wts)"
proof -
  let ?ws = "py_split text_in"
  let ?avg = "audio_duration / real (length ?ws)"
  obtain wts where run: "word_timings_loop ?avg 0 ?ws = Inr wts"
    and len: "length wts = length ?ws"
    using word_timings_loop_total by blast
  from assms run have est: "estimate_word_timings text_in audio_duration = Inr wts"
    by (simp add: estimate_word_timings_def py_div_def)
  from len assms have ne: "wts \<noteq> []" by auto
  from word_timings_loop_last [OF run assms]
  have last_end: "end_time (last wts) =
      audio_duration * real (sum_list (map length ?ws)) / (5 * real (length ?ws))"
    by simp
  have exact: "end_time (last wts) = audio_duration"
    if "sum_list (map length ?ws) = 5 * length ?ws"
    using that assms last_end by simp
  from organize_last_line [OF ne, of R] est ne last_end exact show ?thesis
    by blast
qed

subsection \<open>With rounding\<close>











lemma char_timings_loop_fl_id:
  "char_timings_loop_fl (\<lambda>x. x) start duration char_count js
     = char_timings_loop start duration char_count js"
  by (induction js) (simp_all add: py_div_fl_def py_div_def)

lemma estimate_char_timings_fl_id:
  "estimate_char_timings_fl (\<lambda>x. x) w start end = estimate_char_timings w start end"
  by (simp add: estimate_char_timings_fl_def estimate_char_timings_def char_timings_loop_fl_id
      Let_def)

lemma word_timings_loop_fl_id:
  "word_timings_loop_fl (\<lambda>x. x) avg cur ws = word_timings_loop avg cur ws"
  by (induction ws arbitrary: cur)
    (simp_all add: Let_def estimate_char_timings_fl_id split: sum.splits)

text \<open>Without rounding the rounded estimator is the estimator above.\<close>

lemma estimate_word_timings_fl_id:
  "estimate_word_timings_fl (\<lambda>x. x) text_in audio_duration
     = estimate_word_timings text_in audio_duration"
  by (simp add: estimate_word_timings_fl_def estimate_word_timings_def py_div_fl_def py_div_def
      word_timings_loop_fl_id Let_def)





section \<open>Failure and fallback\<close>

text \<open>
  C6, as amended. The estimator never fails: for every text and every duration, positive
  or not, it returns one timing per word, and the empty sequence for the empty text.
  For a missing or empty narration the avatar renderer substitutes its five default
  segments.
\<close>

theorem estimator_never_fails:
  "(\<exists>wts. estimate_word_timings text_in audio_duration = Inr wts \<and>
           length wts = length (py_split text_in)) \<and>
   estimate_word_timings [] audio_duration = Inr [] \<and>
   split_narration_into_segments None duration = Inr default_segments \<and>
   split_narration_into_segments (Some []) duration = Inr default_segments \<and>
   length default_segments = 5"
proof -
  have a: "\<exists>wts. estimate_word_timings text_in audio_duration = Inr wts \<and>
           length wts = length (py_split text_in)"
  proof (cases "py_split text_in = []")
    case True
    then show ?thesis by (simp add: estimate_word_timings_def)
  next
    case False
    then show ?thesis
      using word_timings_loop_total [of "audio_duration / real (length (py_split text_in))" 0 "py_split text_in"]
      by (simp add: estimate_word_timings_def py_div_def Let_def)
  qed
  have b: "estimate_word_timings [] audio_duration = Inr []"
    by (simp add: estimate_word_timings_def py_split_def)
  have c: "split_narration_into_segments None duration = Inr default_segments"
    "split_narration_into_segments (Some []) duration = Inr default_segments"
    by (simp_all add: split_narration_into_segments_def)
  have d: "length default_segments = 5"
    by (simp add: default_segments_def)
  from a b c d show ?thesis by blast
qed

text \<open>
  A duration of zero and an empty text both give a result, not an error, and the
  fallback has five segments.
\<close>

theorem estimation_error_counterexample:
  "estimate_word_timings ''Hi there'' 0 =
     Inr [\<lparr>word = ''Hi'', start_time = 0, end_time = 0, char_positions = [0, 0]\<rparr>,
          \<lparr>word = ''there'', start_time = 0, end_time = 0, char_positions = [0, 0, 0, 0, 0]\<rparr>] \<and>
   estimate_word_timings '''' 2 = Inr [] \<and>
   map_sum id length (split_narration_into_segments (Some '''') 0) = Inr 5"
  by code_simp

text \<open>
  The splitter of the avatar renderer divides the word count by the duration: with no
  audio and more than five words it raises.
\<close>

lemma split_narration_zero_duration:
  "split_narration_into_segments (Some ''a b c d e f g'') 0 = Inl ZeroDivisionError"
  by code_simp

section \<open>Start and end of a line\<close>

lemma junction_nth:
  assumes "xs \<noteq> []" and "ys \<noteq> []"
  shows "(A @ xs @ ys @ B) ! (length A + length xs - 1) = last xs"
    and "(A @ xs @ ys @ B) ! Suc (length A + length xs - 1) = hd ys"
proof -
  from assms(1) obtain n where n: "length xs = Suc n" by (cases xs) auto
  with assms(1) show "(A @ xs @ ys @ B) ! (length A + length xs - 1) = last xs"
    by (simp add: nth_append last_conv_nth)
  from n assms(2) show "(A @ xs @ ys @ B) ! Suc (length A + length xs - 1) = hd ys"
    by (simp add: nth_append hd_conv_nth)
qed

lemma concat_split_at:
  assumes "Suc i < length L"
  shows "concat (map f L) =
           concat (map f (take i L)) @ f (L ! i) @ f (L ! Suc i) @ concat (map f (drop (Suc (Suc i)) L))"
proof -
  from assms have "L = take i L @ L ! i # L ! Suc i # drop (Suc (Suc i)) L"
    by (simp add: id_take_nth_drop Cons_nth_drop_Suc)
  then have "concat (map f L) = concat (map f (take i L @ L ! i # L ! Suc i # drop (Suc (Suc i)) L))"
    by simp
  then show ?thesis by simp
qed

lemma contiguous_junction:
  assumes cont: "\<forall>j. Suc j < length (concat (map words L)) \<longrightarrow>
            start_time (concat (map words L) ! Suc j) = end_time (concat (map words L) ! j)"
    and ne: "\<forall>l \<in> set L. words l \<noteq> []"
    and i: "Suc i < length L"
  shows "start_time (hd (words (L ! Suc i))) = end_time (last (words (L ! i)))"
proof -
  let ?A = "concat (map words (take i L))"
  let ?B = "concat (map words (drop (Suc (Suc i)) L))"
  let ?xs = "words (L ! i)"
  let ?ys = "words (L ! Suc i)"
  let ?j = "length ?A + length ?xs - 1"
  from i ne have xs: "?xs \<noteq> []" and ys: "?ys \<noteq> []" by simp_all
  have split: "concat (map words L) = ?A @ ?xs @ ?ys @ ?B"
    by (rule concat_split_at [OF i])
  from xs ys have "Suc ?j < length (?A @ ?xs @ ?ys @ ?B)"
    by (cases ?xs; cases ?ys) simp_all
  with cont split have "start_time ((?A @ ?xs @ ?ys @ ?B) ! Suc ?j) = end_time ((?A @ ?xs @ ?ys @ ?B) ! ?j)"
    by metis
  with junction_nth [OF xs ys, of ?A ?B] show ?thesis by simp
qed

text \<open>
  C8, as amended. Every line of the segmenter has a word. Every line after the first
  starts with its first word. The last line ends with its last word; every other line ends
  where the first word of the next line starts, which is the end of its own last word
  whenever each word timing starts where the one before it ends, as the estimator's do.
\<close>

theorem organize_text_into_lines_times:
  assumes "i < length (organize_text_into_lines R wts)"
  shows "words (organize_text_into_lines R wts ! i) \<noteq> [] \<and>
    (0 < i \<longrightarrow> line_start_time (organize_text_into_lines R wts ! i)
                  = start_time (hd (words (organize_text_into_lines R wts ! i)))) \<and>
    (Suc i < length (organize_text_into_lines R wts) \<longrightarrow>
       line_end_time (organize_text_into_lines R wts ! i)
         = start_time (hd (words (organize_text_into_lines R wts ! Suc i)))) \<and>
    (Suc i = length (organize_text_into_lines R wts) \<longrightarrow>
       line_end_time (organize_text_into_lines R wts ! i)
         = end_time (last (words (organize_text_into_lines R wts ! i)))) \<and>
    ((\<forall>j. Suc j < length wts \<longrightarrow> start_time (wts ! Suc j) = end_time (wts ! j)) \<longrightarrow>
       line_end_time (organize_text_into_lines R wts ! i)
         = end_time (last (words (organize_text_into_lines R wts ! i))))"
proof -
  let ?L = "organize_text_into_lines R wts"
  have linked: "lines_linked ?L" by (rule organize_lines_linked)
  then have ne: "\<forall>l \<in> set ?L. words l \<noteq> []"
    and link: "\<forall>k. Suc k < length ?L \<longrightarrow>
        line_end_time (?L ! k) = start_time (hd (words (?L ! Suc k))) \<and>
        line_start_time (?L ! Suc k) = start_time (hd (words (?L ! Suc k)))"
    by (simp_all add: lines_linked_def)
  from assms ne have a: "words (?L ! i) \<noteq> []" by simp
  have b: "line_start_time (?L ! i) = start_time (hd (words (?L ! i)))" if "0 < i"
  proof -
    from that obtain k where k: "i = Suc k" by (cases i) auto
    with assms link show ?thesis by simp
  qed
  have c: "line_end_time (?L ! i) = start_time (hd (words (?L ! Suc i)))" if "Suc i < length ?L"
    using that link by simp
  have wts_ne: "wts \<noteq> []"
  proof
    assume "wts = []"
    then have "?L = []" by (simp add: organize_text_into_lines_def)
    with assms show False by simp
  qed
  have d: "line_end_time (?L ! i) = end_time (last (words (?L ! i)))" if "Suc i = length ?L"
  proof -
    from that have "?L ! i = last ?L"
      by (metis assms diff_Suc_1 last_conv_nth length_0_conv not_less_zero)
    with organize_last_line [OF wts_ne, of R] show ?thesis by simp
  qed
  have e: "line_end_time (?L ! i) = end_time (last (words (?L ! i)))"
    if cont: "\<forall>j. Suc j < length wts \<longrightarrow> start_time (wts ! Suc j) = end_time (wts ! j)"
  proof (cases "Suc i < length ?L")
    case True
    from cont have "\<forall>j. Suc j < length (concat (map words ?L)) \<longrightarrow>
        start_time (concat (map words ?L) ! Suc j) = end_time (concat (map words ?L) ! j)"
      by (simp add: organize_concat_words)
    from contiguous_junction [OF this ne True] c [OF True] show ?thesis by simp
  next
    case False
    with assms have "Suc i = length ?L" by simp
    then show ?thesis by (rule d)
  qed
  from a b c d e show ?thesis by blast
qed

theorem organize_text_into_lines_times_witness:
  "1 < length (organize_text_into_lines init_renderer
         [\<lparr>word = replicate 40 CHR ''a'', start_time = 0, end_time = 1, char_positions = []\<rparr>,
          \<lparr>word = replicate 40 CHR ''b'', start_time = 2, end_time = 3, char_positions = []\<rparr>]) \<and>
   line_start_time (organize_text_into_lines init_renderer
         [\<lparr>word = replicate 40 CHR ''a'', start_time = 0, end_time = 1, char_positions = []\<rparr>,
          \<lparr>word = replicate 40 CHR ''b'', start_time = 2, end_time = 3, char_positions = []\<rparr>] ! 1)
     = start_time (hd (words (organize_text_into_lines init_renderer
         [\<lparr>word = replicate 40 CHR ''a'', start_time = 0, end_time = 1, char_positions = []\<rparr>,
          \<lparr>word = replicate 40 CHR ''b'', start_time = 2, end_time = 3, char_positions = []\<rparr>] ! 1))) \<and>
   line_end_time (organize_text_into_lines init_renderer
         [\<lparr>word = replicate 40 CHR ''a'', start_time = 0, end_time = 1, char_positions = []\<rparr>,
          \<lparr>word = replicate 40 CHR ''b'', start_time = 2, end_time = 3, char_positions = []\<rparr>] ! 1)
     = end_time (last (words (organize_text_into_lines init_renderer
         [\<lparr>word = replicate 40 CHR ''a'', start_time = 0, end_time = 1, char_positions = []\<rparr>,
          \<lparr>word = replicate 40 CHR ''b'', start_time = 2, end_time = 3, char_positions = []\<rparr>] ! 1)))"
proof -
  let ?ws = "[\<lparr>word = replicate 40 CHR ''a'', start_time = 0, end_time = 1, char_positions = []\<rparr>,
          \<lparr>word = replicate 40 CHR ''b'', start_time = 2, end_time = 3, char_positions = []\<rparr>]"
  have len: "length (organize_text_into_lines init_renderer ?ws) = 2"
    by code_simp
  then have h: "1 < length (organize_text_into_lines init_renderer ?ws)" by simp
  from organize_text_into_lines_times [OF h] len h show ?thesis
    by simp
qed

text \<open>
  Two words of forty characters with a pause between them fill one line each; the first
  line ends at 2, where the second word starts, and its last word ends at 1.
\<close>

theorem organize_text_into_lines_times_counterexample:
  "map line_end_time (organize_text_into_lines init_renderer
         [\<lparr>word = replicate 40 CHR ''a'', start_time = 0, end_time = 1, char_positions = []\<rparr>,
          \<lparr>word = replicate 40 CHR ''b'', start_time = 2, end_time = 3, char_positions = []\<rparr>])
     = [2, 3] \<and>
   map (end_time \<circ> last \<circ> words) (organize_text_into_lines init_renderer
         [\<lparr>word = replicate 40 CHR ''a'', start_time = 0, end_time = 1, char_positions = []\<rparr>,
          \<lparr>word = replicate 40 CHR ''b'', start_time = 2, end_time = 3, char_positions = []\<rparr>])
     = [1, 3]"
  by code_simp

section \<open>Visible lines and their fade\<close>

lemma fade_progress_of_total:
  "0 < fade_duration R \<Longrightarrow> \<exists>x. fade_progress_of R line t = Inr x"
  by (simp add: fade_progress_of_def py_div_def Let_def)

lemma fade_progress_of_Some:
  assumes pos: "0 < fade_duration R"
    and some: "fade_progress_of R line t = Inr (Some fp)"
  shows "0 \<le> fp" and "fp \<le> 1" and "line_start_time line - fade_duration R \<le> t"
    and "t < line_start_time line \<Longrightarrow>
           fp = (t - (line_start_time line - fade_duration R)) / fade_duration R"
    and "line_start_time line \<le> t \<Longrightarrow> t \<le> line_end_time line \<Longrightarrow> fp = 1"
    and "line_start_time line \<le> t \<Longrightarrow> line_end_time line < t \<Longrightarrow>
           fp = 1 - (t - line_end_time line) / fade_duration R \<and> 0 < fp"
proof -
  from pos have nz: "fade_duration R \<noteq> 0" by simp
  from some show vis: "line_start_time line - fade_duration R \<le> t"
    by (simp add: fade_progress_of_def split: if_splits)
  show lead: "fp = (t - (line_start_time line - fade_duration R)) / fade_duration R"
    if "t < line_start_time line"
    using some that vis nz by (simp add: fade_progress_of_def py_div_def)
  show hold: "fp = 1" if "line_start_time line \<le> t" "t \<le> line_end_time line"
    using some that vis by (simp add: fade_progress_of_def)
  show trail: "fp = 1 - (t - line_end_time line) / fade_duration R \<and> 0 < fp"
    if "line_start_time line \<le> t" "line_end_time line < t"
    using some that vis nz
    by (auto simp: fade_progress_of_def py_div_def Let_def split: if_splits)
  consider "t < line_start_time line"
    | "line_start_time line \<le> t" "t \<le> line_end_time line"
    | "line_start_time line \<le> t" "line_end_time line < t"
    by linarith
  then show "0 \<le> fp"
  proof cases
    case 1
    from lead [OF 1] vis pos show ?thesis by simp
  next
    case 2
    with hold show ?thesis by simp
  next
    case 3
    with trail show ?thesis by simp
  qed
  consider "t < line_start_time line"
    | "line_start_time line \<le> t" "t \<le> line_end_time line"
    | "line_start_time line \<le> t" "line_end_time line < t"
    by linarith
  then show "fp \<le> 1"
  proof cases
    case 1
    from lead [OF 1] 1 pos show ?thesis by simp
  next
    case 2
    with hold show ?thesis by simp
  next
    case 3
    from trail [OF 3] 3 pos show ?thesis by simp
  qed
qed

lemma visible_loop_result:
  assumes pos: "0 < fade_duration R"
  shows "length acc < nat (max 1 (max_lines R)) \<Longrightarrow>
    \<exists>vis. visible_loop R t acc lines = Inr vis \<and>
      map fst vis = map fst acc
        @ take (nat (max 1 (max_lines R)) - length acc)
            (filter (\<lambda>l. \<exists>fp. fade_progress_of R l t = Inr (Some fp)) lines) \<and>
      set vis \<subseteq> set acc \<union> {(l, fp). l \<in> set lines \<and> fade_progress_of R l t = Inr (Some fp)}"
proof (induction lines arbitrary: acc)
  case Nil
  then show ?case by simp
next
  case (Cons line rest)
  let ?N = "nat (max 1 (max_lines R))"
  from fade_progress_of_total [OF pos] obtain x where x: "fade_progress_of R line t = Inr x"
    by blast
  show ?case
  proof (cases x)
    case None
    with x Cons.IH [OF Cons.prems] show ?thesis by auto
  next
    case (Some fp)
    let ?acc' = "acc @ [(line, fp)]"
    show ?thesis
    proof (cases "int (length ?acc') \<ge> max_lines R")
      case True
      with Cons.prems have "?N - length acc = 1" by auto
      with x Some True show ?thesis by auto
    next
      case False
      then have small: "length ?acc' < ?N" by auto
      from Cons.prems have "?N - length acc = Suc (?N - length ?acc')" by auto
      with x Some False Cons.IH [OF small] show ?thesis by auto
    qed
  qed
qed

lemma fade_progress_of_eq:
  assumes "0 < fade_duration R"
  shows "fade_progress_of R l t =
    Inr (if line_start_time l - fade_duration R \<le> t \<and>
            (t < line_start_time l \<or> t < line_end_time l + fade_duration R)
         then Some (if t < line_start_time l
                    then (t - (line_start_time l - fade_duration R)) / fade_duration R
                    else if line_end_time l < t
                    then 1 - (t - line_end_time l) / fade_duration R
                    else 1)
         else None)"
proof -
  from assms have nz: "fade_duration R \<noteq> 0" by simp
  have trail: "1 - (t - line_end_time l) / fade_duration R \<le> 0
      \<longleftrightarrow> \<not> t < line_end_time l + fade_duration R"
    using assms by (simp add: field_simps not_less)
  show ?thesis
  proof (cases "line_start_time l - fade_duration R \<le> t")
    case False
    then show ?thesis by (simp add: fade_progress_of_def)
  next
    case vis: True
    show ?thesis
    proof (cases "t < line_start_time l")
      case True
      with vis nz show ?thesis by (simp add: fade_progress_of_def py_div_def)
    next
      case late: False
      show ?thesis
      proof (cases "line_end_time l < t")
        case True
        with vis late nz trail show ?thesis
          by (simp add: fade_progress_of_def py_div_def Let_def)
      next
        case False
        with assms have "t < line_end_time l + fade_duration R" by simp
        with vis late False show ?thesis by (simp add: fade_progress_of_def)
      qed
    qed
  qed
qed

lemma visible_loop_pairs:
  assumes pos: "0 < fade_duration R"
  shows "length acc < nat (max 1 (max_lines R)) \<Longrightarrow>
    visible_loop R t acc lines =
      Inr (acc @ take (nat (max 1 (max_lines R)) - length acc)
        (map (\<lambda>l. (l, if t < line_start_time l
                        then (t - (line_start_time l - fade_duration R)) / fade_duration R
                        else if line_end_time l < t
                        then 1 - (t - line_end_time l) / fade_duration R
                        else 1))
          (filter (\<lambda>l. line_start_time l - fade_duration R \<le> t \<and>
                     (t < line_start_time l \<or> t < line_end_time l + fade_duration R)) lines)))"
proof (induction lines arbitrary: acc)
  case Nil
  then show ?case by simp
next
  case (Cons line rest)
  let ?N = "nat (max 1 (max_lines R))"
  let ?P = "\<lambda>l. line_start_time l - fade_duration R \<le> t \<and>
                     (t < line_start_time l \<or> t < line_end_time l + fade_duration R)"
  let ?v = "\<lambda>l. if t < line_start_time l
                        then (t - (line_start_time l - fade_duration R)) / fade_duration R
                        else if line_end_time l < t
                        then 1 - (t - line_end_time l) / fade_duration R
                        else 1"
  show ?case
  proof (cases "?P line")
    case False
    then have fp: "fade_progress_of R line t = Inr None"
      by (simp add: fade_progress_of_eq [OF pos])
    from False have flt: "filter ?P (line # rest) = filter ?P rest"
      by simp
    have "visible_loop R t acc (line # rest) = visible_loop R t acc rest"
      by (simp add: fp)
    with Cons.IH [OF Cons.prems] show ?thesis
      by (simp only: flt)
  next
    case True
    then have fp: "fade_progress_of R line t = Inr (Some (?v line))"
      by (simp add: fade_progress_of_eq [OF pos])
    from True have flt: "filter ?P (line # rest) = line # filter ?P rest"
      by simp
    let ?acc' = "acc @ [(line, ?v line)]"
    let ?pairs = "map (\<lambda>l. (l, ?v l)) (filter ?P rest)"
    show ?thesis
    proof (cases "int (length ?acc') \<ge> max_lines R")
      case full: True
      with Cons.prems have one: "?N - length acc = 1" by auto
      from full have "visible_loop R t acc (line # rest) = Inr ?acc'"
        by (simp add: fp)
      moreover have "take (?N - length acc) ((line, ?v line) # ?pairs) = [(line, ?v line)]"
        by (simp only: one) simp
      ultimately show ?thesis
        by (simp only: flt list.map)
    next
      case more: False
      then have small: "length ?acc' < ?N" by auto
      from Cons.prems have suc: "?N - length acc = Suc (?N - length ?acc')" by auto
      from more have "visible_loop R t acc (line # rest) = visible_loop R t ?acc' rest"
        by (simp add: fp)
      moreover have "take (?N - length acc) ((line, ?v line) # ?pairs)
          = (line, ?v line) # take (?N - length ?acc') ?pairs"
        by (simp only: suc take_Suc_Cons)
      ultimately show ?thesis
        using Cons.IH [OF small] by (simp only: flt list.map append_assoc append_Cons append_Nil)
    qed
  qed
qed

lemma take_map_filter_member:
  assumes "i < length xs" and "i < n" and "P (xs ! i)"
  shows "f (xs ! i) \<in> set (take n (map f (filter P xs)))"
proof -
  let ?a = "map f (filter P (take i xs))"
  let ?b = "map f (filter P (drop (Suc i) xs))"
  from assms(1) have "xs = take i xs @ xs ! i # drop (Suc i) xs"
    by (simp add: id_take_nth_drop)
  then have "map f (filter P xs) = map f (filter P (take i xs @ xs ! i # drop (Suc i) xs))"
    by simp
  with assms(3) have split: "map f (filter P xs) = ?a @ f (xs ! i) # ?b"
    by simp
  have "length ?a \<le> length (take i xs)"
    unfolding length_map by (rule length_filter_le)
  with assms(1,2) have short: "length ?a < n" by simp
  have "(?a @ f (xs ! i) # ?b) ! length ?a = f (xs ! i)" by (rule nth_append_length)
  moreover have "length ?a < length (take n (?a @ f (xs ! i) # ?b))"
    using short by simp
  moreover have "take n (?a @ f (xs ! i) # ?b) ! length ?a = (?a @ f (xs ! i) # ?b) ! length ?a"
    by (rule nth_take [OF short])
  ultimately have "f (xs ! i) \<in> set (take n (?a @ f (xs ! i) # ?b))"
    by (metis nth_mem)
  with split show ?thesis by simp
qed

text \<open>
  C9. With a positive fade duration, as \<open>__init__\<close> sets it, the resolver returns the
  first \<open>max_lines\<close> (at least one) of the lines \<open>l\<close> with
  \<open>start - fade \<le> t\<close> and \<open>t < start\<close> or \<open>t < end + fade\<close>, each with its fade
  progress: before the line's start the fraction of the leading fade that has passed, from
  the start to the end of the line 1, and after the end 1 less the fraction of the trailing
  fade that has passed. So a line within the first \<open>max_lines\<close> of the timeline is
  returned with the leading value while it fades in, with 1 while it is spoken and with
  the trailing value while it fades out; every fade progress returned lies between 0 and
  1, and a line whose trailing progress would be 0 or less is not returned.
\<close>

theorem get_visible_lines_at_time_fade:
  assumes "0 < fade_duration R"
  shows "\<exists>vis. get_visible_lines_at_time R lines t = Inr vis \<and>
    vis = take (nat (max 1 (max_lines R)))
      (map (\<lambda>l. (l, if t < line_start_time l
                      then (t - (line_start_time l - fade_duration R)) / fade_duration R
                      else if line_end_time l < t
                      then 1 - (t - line_end_time l) / fade_duration R
                      else 1))
        (filter (\<lambda>l. line_start_time l - fade_duration R \<le> t \<and>
                   (t < line_start_time l \<or> t < line_end_time l + fade_duration R)) lines)) \<and>
    (\<forall>i. i < length lines \<and> int i < max 1 (max_lines R) \<and>
         line_start_time (lines ! i) - fade_duration R \<le> t \<and> t < line_start_time (lines ! i) \<longrightarrow>
         (lines ! i, (t - (line_start_time (lines ! i) - fade_duration R)) / fade_duration R)
           \<in> set vis) \<and>
    (\<forall>i. i < length lines \<and> int i < max 1 (max_lines R) \<and>
         line_start_time (lines ! i) \<le> t \<and> t \<le> line_end_time (lines ! i) \<longrightarrow>
         (lines ! i, 1) \<in> set vis) \<and>
    (\<forall>i. i < length lines \<and> int i < max 1 (max_lines R) \<and>
         line_start_time (lines ! i) \<le> t \<and> line_end_time (lines ! i) < t \<and>
         t < line_end_time (lines ! i) + fade_duration R \<longrightarrow>
         (lines ! i, 1 - (t - line_end_time (lines ! i)) / fade_duration R) \<in> set vis) \<and>
    (\<forall>(l, fp) \<in> set vis.
       0 \<le> fp \<and> fp \<le> 1 \<and> l \<in> set lines \<and> line_start_time l - fade_duration R \<le> t \<and>
       (t < line_start_time l \<longrightarrow>
          fp = (t - (line_start_time l - fade_duration R)) / fade_duration R) \<and>
       (line_start_time l \<le> t \<and> t \<le> line_end_time l \<longrightarrow> fp = 1) \<and>
       (line_start_time l \<le> t \<and> line_end_time l < t \<longrightarrow>
          fp = 1 - (t - line_end_time l) / fade_duration R \<and> 0 < fp))"
proof -
  let ?N = "nat (max 1 (max_lines R))"
  let ?P = "\<lambda>l. line_start_time l - fade_duration R \<le> t \<and>
                   (t < line_start_time l \<or> t < line_end_time l + fade_duration R)"
  let ?f = "\<lambda>l. (l, if t < line_start_time l
                      then (t - (line_start_time l - fade_duration R)) / fade_duration R
                      else if line_end_time l < t
                      then 1 - (t - line_end_time l) / fade_duration R
                      else 1)"
  define vis where "vis = take ?N (map ?f (filter ?P lines))"
  have small: "length ([] :: (LineData \<times> real) list) < ?N" by simp
  from visible_loop_pairs [OF assms small, of t lines]
  have run: "get_visible_lines_at_time R lines t = Inr vis"
    by (simp add: get_visible_lines_at_time_def vis_def)
  have member: "?f (lines ! i) \<in> set vis"
    if "i < length lines" "int i < max 1 (max_lines R)" "?P (lines ! i)" for i
  proof -
    from that(2) have "i < ?N" by simp
    from take_map_filter_member [of i lines ?N ?P ?f, OF that(1) this that(3)]
    show ?thesis by (simp only: vis_def)
  qed
  have lead: "(lines ! i, (t - (line_start_time (lines ! i) - fade_duration R)) / fade_duration R)
           \<in> set vis"
    if "i < length lines \<and> int i < max 1 (max_lines R) \<and>
         line_start_time (lines ! i) - fade_duration R \<le> t \<and> t < line_start_time (lines ! i)" for i
    using member [of i] that by simp
  have hold: "(lines ! i, 1) \<in> set vis"
    if "i < length lines \<and> int i < max 1 (max_lines R) \<and>
         line_start_time (lines ! i) \<le> t \<and> t \<le> line_end_time (lines ! i)" for i
  proof -
    from that assms have "?P (lines ! i)" by simp
    with member [of i] that show ?thesis by simp
  qed
  have trail: "(lines ! i, 1 - (t - line_end_time (lines ! i)) / fade_duration R) \<in> set vis"
    if "i < length lines \<and> int i < max 1 (max_lines R) \<and>
         line_start_time (lines ! i) \<le> t \<and> line_end_time (lines ! i) < t \<and>
         t < line_end_time (lines ! i) + fade_duration R" for i
  proof -
    from that assms have "?P (lines ! i)" by simp
    with member [of i] that show ?thesis by simp
  qed
  from visible_loop_result [OF assms small, of t lines] run
  have mem: "set vis \<subseteq> {(l, fp). l \<in> set lines \<and> fade_progress_of R l t = Inr (Some fp)}"
    by (auto simp: get_visible_lines_at_time_def)
  have each: "0 \<le> fp \<and> fp \<le> 1 \<and> l \<in> set lines \<and> line_start_time l - fade_duration R \<le> t \<and>
       (t < line_start_time l \<longrightarrow>
          fp = (t - (line_start_time l - fade_duration R)) / fade_duration R) \<and>
       (line_start_time l \<le> t \<and> t \<le> line_end_time l \<longrightarrow> fp = 1) \<and>
       (line_start_time l \<le> t \<and> line_end_time l < t \<longrightarrow>
          fp = 1 - (t - line_end_time l) / fade_duration R \<and> 0 < fp)"
    if "(l, fp) \<in> set vis" for l fp
  proof -
    from that mem have l: "l \<in> set lines" and some: "fade_progress_of R l t = Inr (Some fp)"
      by auto
    from fade_progress_of_Some [OF assms some] l show ?thesis by blast
  qed
  from run lead hold trail each show ?thesis
    unfolding vis_def by blast
qed

theorem get_visible_lines_at_time_fade_witness:
  "0 < fade_duration init_renderer \<and>
   map_sum id (map (apfst line_text)) (get_visible_lines_at_time init_renderer
     [\<lparr>words = [], line_start_time = 0, line_end_time = 1, line_text = ''one'', max_chars = 3\<rparr>,
      \<lparr>words = [], line_start_time = 1, line_end_time = 6 / 5, line_text = ''two'', max_chars = 3\<rparr>,
      \<lparr>words = [], line_start_time = 6 / 5, line_end_time = 7 / 5, line_text = ''three'', max_chars = 5\<rparr>,
      \<lparr>words = [], line_start_time = 7 / 5, line_end_time = 3, line_text = ''four'', max_chars = 4\<rparr>]
     (4 / 5)) = Inr [(''one'', 1), (''two'', 3 / 5), (''three'', 1 / 5)] \<and>
   map_sum id (map (apfst line_text)) (get_visible_lines_at_time init_renderer
     [\<lparr>words = [], line_start_time = 0, line_end_time = 1, line_text = ''one'', max_chars = 3\<rparr>,
      \<lparr>words = [], line_start_time = 1, line_end_time = 6 / 5, line_text = ''two'', max_chars = 3\<rparr>,
      \<lparr>words = [], line_start_time = 6 / 5, line_end_time = 7 / 5, line_text = ''three'', max_chars = 5\<rparr>,
      \<lparr>words = [], line_start_time = 7 / 5, line_end_time = 3, line_text = ''four'', max_chars = 4\<rparr>]
     (13 / 10)) = Inr [(''one'', 2 / 5), (''two'', 4 / 5), (''three'', 1)]"
proof -
  let ?ls = "[\<lparr>words = [], line_start_time = 0, line_end_time = 1, line_text = ''one'', max_chars = 3\<rparr>,
      \<lparr>words = [], line_start_time = 1, line_end_time = 6 / 5, line_text = ''two'', max_chars = 3\<rparr>,
      \<lparr>words = [], line_start_time = 6 / 5, line_end_time = 7 / 5, line_text = ''three'', max_chars = 5\<rparr>,
      \<lparr>words = [], line_start_time = 7 / 5, line_end_time = 3, line_text = ''four'', max_chars = 4\<rparr>]"
  have h: "0 < fade_duration init_renderer" by (simp add: init_renderer_def)
  from get_visible_lines_at_time_fade [OF h, of ?ls "4 / 5"]
  have early: "get_visible_lines_at_time init_renderer ?ls (4 / 5)
      = Inr [(?ls ! 0, 1), (?ls ! 1, 3 / 5), (?ls ! 2, 1 / 5)]"
    by (simp add: init_renderer_def)
  from get_visible_lines_at_time_fade [OF h, of ?ls "13 / 10"]
  have late: "get_visible_lines_at_time init_renderer ?ls (13 / 10)
      = Inr [(?ls ! 0, 2 / 5), (?ls ! 1, 4 / 5), (?ls ! 2, 1)]"
    by (simp add: init_renderer_def)
  from h early late show ?thesis by simp
qed

text \<open>
  C4, as amended. With a positive fade duration the resolver returns the first
  \<open>max_lines\<close> (at least one) of the lines that have a fade progress at \<open>t\<close>, in the
  order of the timeline: when more lines are visible than the cap allows, the earliest in
  the timeline are kept and the later ones are left out.
\<close>

theorem get_visible_lines_at_time_cap:
  assumes "0 < fade_duration R"
  shows "\<exists>vis. get_visible_lines_at_time R lines t = Inr vis \<and>
    map fst vis = take (nat (max 1 (max_lines R)))
                    (filter (\<lambda>l. \<exists>fp. fade_progress_of R l t = Inr (Some fp)) lines) \<and>
    int (length vis) \<le> max 1 (max_lines R)"
proof -
  have "length ([] :: (LineData \<times> real) list) < nat (max 1 (max_lines R))" by simp
  from visible_loop_result [OF assms this, of t lines]
  obtain vis where run: "get_visible_lines_at_time R lines t = Inr vis"
    and fst: "map fst vis = take (nat (max 1 (max_lines R)))
                    (filter (\<lambda>l. \<exists>fp. fade_progress_of R l t = Inr (Some fp)) lines)"
    by (auto simp: get_visible_lines_at_time_def)
  from fst have "length (map fst vis) \<le> nat (max 1 (max_lines R))"
    by simp
  then have "int (length vis) \<le> max 1 (max_lines R)" by simp
  with run fst show ?thesis by blast
qed

theorem get_visible_lines_at_time_cap_witness:
  "0 < fade_duration init_renderer \<and>
   map_sum id (map (line_text \<circ> fst)) (get_visible_lines_at_time init_renderer
     [\<lparr>words = [], line_start_time = 0, line_end_time = 1, line_text = ''one'', max_chars = 3\<rparr>,
      \<lparr>words = [], line_start_time = 1, line_end_time = 6 / 5, line_text = ''two'', max_chars = 3\<rparr>,
      \<lparr>words = [], line_start_time = 6 / 5, line_end_time = 7 / 5, line_text = ''three'', max_chars = 5\<rparr>,
      \<lparr>words = [], line_start_time = 7 / 5, line_end_time = 3, line_text = ''four'', max_chars = 4\<rparr>]
     (13 / 10)) = Inr [''one'', ''two'', ''three'']"
proof -
  let ?ls = "[\<lparr>words = [], line_start_time = 0, line_end_time = 1, line_text = ''one'', max_chars = 3\<rparr>,
      \<lparr>words = [], line_start_time = 1, line_end_time = 6 / 5, line_text = ''two'', max_chars = 3\<rparr>,
      \<lparr>words = [], line_start_time = 6 / 5, line_end_time = 7 / 5, line_text = ''three'', max_chars = 5\<rparr>,
      \<lparr>words = [], line_start_time = 7 / 5, line_end_time = 3, line_text = ''four'', max_chars = 4\<rparr>]"
  have h: "0 < fade_duration init_renderer" by (simp add: init_renderer_def)
  have f1: "fade_progress_of init_renderer
      \<lparr>words = [], line_start_time = 0, line_end_time = 1, line_text = ''one'', max_chars = 3\<rparr>
      (13 / 10) = Inr (Some (2 / 5))"
    by code_simp
  have f2: "fade_progress_of init_renderer
      \<lparr>words = [], line_start_time = 1, line_end_time = 6 / 5, line_text = ''two'', max_chars = 3\<rparr>
      (13 / 10) = Inr (Some (4 / 5))"
    by code_simp
  have f3: "fade_progress_of init_renderer
      \<lparr>words = [], line_start_time = 6 / 5, line_end_time = 7 / 5, line_text = ''three'', max_chars = 5\<rparr>
      (13 / 10) = Inr (Some 1)"
    by code_simp
  have f4: "fade_progress_of init_renderer
      \<lparr>words = [], line_start_time = 7 / 5, line_end_time = 3, line_text = ''four'', max_chars = 4\<rparr>
      (13 / 10) = Inr (Some (4 / 5))"
    by code_simp
  have all_visible: "filter (\<lambda>l. \<exists>fp. fade_progress_of init_renderer l (13 / 10) = Inr (Some fp)) ?ls = ?ls"
  proof (rule filter_True, intro ballI)
    fix l assume "l \<in> set ?ls"
    then consider "l = ?ls ! 0" | "l = ?ls ! 1" | "l = ?ls ! 2" | "l = ?ls ! 3"
      by auto
    then show "\<exists>fp. fade_progress_of init_renderer l (13 / 10) = Inr (Some fp)"
    proof cases
      case 1 with f1 show ?thesis by (intro exI [of _ "2 / 5"]) simp
    next
      case 2 with f2 show ?thesis by (intro exI [of _ "4 / 5"]) simp
    next
      case 3 with f3 show ?thesis by (intro exI [of _ 1]) simp
    next
      case 4 with f4 show ?thesis by (intro exI [of _ "4 / 5"]) simp
    qed
  qed
  from get_visible_lines_at_time_cap [OF h, of ?ls "13 / 10"]
  obtain vis where run: "get_visible_lines_at_time init_renderer ?ls (13 / 10) = Inr vis"
    and fst: "map fst vis = take (nat (max 1 (max_lines init_renderer)))
        (filter (\<lambda>l. \<exists>fp. fade_progress_of init_renderer l (13 / 10) = Inr (Some fp)) ?ls)"
    by blast
  from fst have "map fst vis = take 3 ?ls"
    unfolding all_visible by (simp add: init_renderer_def)
  then have "map (line_text \<circ> fst) vis = [''one'', ''two'', ''three'']"
    by (simp flip: map_map)
  with h run show ?thesis by simp
qed

text \<open>
  Four lines that follow each other, at 1.3 seconds: the first two are fading out, the
  third is being spoken and the fourth is fading in. Raising the cap to four returns all
  of them; with the cap of three it is the fourth, the newest, that is missing, and the
  oldest is kept.
\<close>

theorem get_visible_lines_at_time_cap_counterexample:
  "map_sum id (map (apfst line_text)) (get_visible_lines_at_time (init_renderer\<lparr>max_lines := 4\<rparr>)
     [\<lparr>words = [], line_start_time = 0, line_end_time = 1, line_text = ''one'', max_chars = 3\<rparr>,
      \<lparr>words = [], line_start_time = 1, line_end_time = 6 / 5, line_text = ''two'', max_chars = 3\<rparr>,
      \<lparr>words = [], line_start_time = 6 / 5, line_end_time = 7 / 5, line_text = ''three'', max_chars = 5\<rparr>,
      \<lparr>words = [], line_start_time = 7 / 5, line_end_time = 3, line_text = ''four'', max_chars = 4\<rparr>]
     (13 / 10)) = Inr [(''one'', 2 / 5), (''two'', 4 / 5), (''three'', 1), (''four'', 4 / 5)] \<and>
   map_sum id (map (apfst line_text)) (get_visible_lines_at_time init_renderer
     [\<lparr>words = [], line_start_time = 0, line_end_time = 1, line_text = ''one'', max_chars = 3\<rparr>,
      \<lparr>words = [], line_start_time = 1, line_end_time = 6 / 5, line_text = ''two'', max_chars = 3\<rparr>,
      \<lparr>words = [], line_start_time = 6 / 5, line_end_time = 7 / 5, line_text = ''three'', max_chars = 5\<rparr>,
      \<lparr>words = [], line_start_time = 7 / 5, line_end_time = 3, line_text = ''four'', max_chars = 4\<rparr>]
     (13 / 10)) = Inr [(''one'', 2 / 5), (''two'', 4 / 5), (''three'', 1)]"
  by code_simp

section \<open>Typing progress\<close>

lemma typed_prefix_mono: "t1 \<le> t2 \<Longrightarrow> typed_prefix t1 cs \<le> typed_prefix t2 cs"
  by (induction cs) auto

lemma typed_prefix_le_length: "typed_prefix t cs \<le> length cs"
  by (induction cs) auto

lemma typed_of_word_mono:
  assumes "length (char_positions w) \<le> length (word w)" and "t1 \<le> t2"
  shows "typed_of_word t1 w \<le> typed_of_word t2 w"
proof (cases "t2 \<ge> end_time w")
  case True
  have "typed_prefix t1 (char_positions w) \<le> length (word w)"
    using typed_prefix_le_length [of t1 "char_positions w"] assms(1) by simp
  with True show ?thesis by (simp add: typed_of_word_def)
next
  case False
  with assms(2) have "\<not> t1 \<ge> end_time w" by simp
  with False assms(2) typed_prefix_mono [OF assms(2), of "char_positions w"] show ?thesis
    by (simp add: typed_of_word_def)
qed

lemma typed_chars_sum:
  "foldl (\<lambda>typed w. typed + typed_of_word t w) a ws = a + sum_list (map (typed_of_word t) ws)"
  by (induction ws arbitrary: a) simp_all

text \<open>
  Where no word has more character times than characters, as in every timing the
  estimator builds, the typed length of a line never decreases.
\<close>

lemma get_typing_progress_mono:
  assumes wf: "\<forall>w \<in> set (words line). length (char_positions w) \<le> length (word w)"
    and le: "t1 \<le> t2"
  shows "get_typing_progress line t1 \<le> get_typing_progress line t2"
proof (cases "t1 < line_start_time line")
  case True
  then show ?thesis by (simp add: get_typing_progress_def)
next
  case False
  with le have later: "\<not> t2 < line_start_time line" by simp
  from wf le have "sum_list (map (typed_of_word t1) (words line))
      \<le> sum_list (map (typed_of_word t2) (words line))"
    by (intro sum_list_mono) (simp add: typed_of_word_mono)
  with False later show ?thesis
    by (simp add: get_typing_progress_def typed_chars_sum Let_def)
qed

lemma estimate_char_timings_length:
  "estimate_char_timings w s e = Inr cps \<Longrightarrow> length cps = length w"
  by (auto simp: estimate_char_timings_Inr)

lemma word_timings_loop_char_positions:
  "word_timings_loop avg cur ws = Inr wts \<Longrightarrow>
   \<forall>w \<in> set wts. length (char_positions w) = length (word w)"
proof (induction ws arbitrary: cur wts)
  case Nil
  then show ?case by simp
next
  case (Cons v vs)
  then show ?case
    by (auto simp: Let_def estimate_char_timings_Inr split: sum.splits)
qed

lemma estimate_word_timings_char_positions:
  assumes "estimate_word_timings text_in audio_duration = Inr wts"
  shows "\<forall>w \<in> set wts. length (char_positions w) = length (word w)"
proof (cases "py_split text_in = []")
  case True
  with assms show ?thesis by (simp add: estimate_word_timings_def)
next
  case False
  with assms have "word_timings_loop (audio_duration / real (length (py_split text_in))) 0
      (py_split text_in) = Inr wts"
    by (simp add: estimate_word_timings_def py_div_def Let_def)
  then show ?thesis by (rule word_timings_loop_char_positions)
qed

text \<open>
  On the path without the recogniser every line has as many character times as
  characters in each word, and its typed length never decreases.
\<close>

lemma estimator_lines_typing_mono:
  assumes est: "estimate_word_timings text_in audio_duration = Inr wts"
    and line: "line \<in> set (organize_text_into_lines R wts)"
    and le: "t1 \<le> t2"
  shows "get_typing_progress line t1 \<le> get_typing_progress line t2"
proof -
  have "length (char_positions w) \<le> length (word w)" if "w \<in> set (words line)" for w
  proof -
    from that line have "w \<in> set (concat (map words (organize_text_into_lines R wts)))"
      by auto
    then have "w \<in> set wts" by (simp only: organize_concat_words)
    with estimate_word_timings_char_positions [OF est] show ?thesis by simp
  qed
  then show ?thesis using le by (intro get_typing_progress_mono) simp_all
qed

text \<open>
  C1. On the recogniser path the word is stored stripped while its character times are
  computed from the unstripped word. For the two recognised words \<open>" Hi"\<close> and
  \<open>" there"\<close> the only line has typed length 3 at 0.4 seconds and 2 at 0.5 seconds.
\<close>

theorem get_typing_progress_drops:
  "extract_word_timings (Transcribed [[('' Hi'', 0, 1 / 2), ('' there'', 1, 3 / 2)]]) 10 ''Hi there''
     = Inr [\<lparr>word = ''Hi'', start_time = 0, end_time = 1 / 2,
               char_positions = [0, 1 / 6, 1 / 3]\<rparr>,
            \<lparr>word = ''there'', start_time = 1, end_time = 3 / 2,
               char_positions = [1, 13 / 12, 7 / 6, 5 / 4, 4 / 3, 17 / 12]\<rparr>] \<and>
   organize_text_into_lines init_renderer
           [\<lparr>word = ''Hi'', start_time = 0, end_time = 1 / 2,
               char_positions = [0, 1 / 6, 1 / 3]\<rparr>,
            \<lparr>word = ''there'', start_time = 1, end_time = 3 / 2,
               char_positions = [1, 13 / 12, 7 / 6, 5 / 4, 4 / 3, 17 / 12]\<rparr>]
     = [\<lparr>words = [\<lparr>word = ''Hi'', start_time = 0, end_time = 1 / 2,
                      char_positions = [0, 1 / 6, 1 / 3]\<rparr>,
                   \<lparr>word = ''there'', start_time = 1, end_time = 3 / 2,
                      char_positions = [1, 13 / 12, 7 / 6, 5 / 4, 4 / 3, 17 / 12]\<rparr>],
         line_start_time = 0, line_end_time = 3 / 2, line_text = ''Hi there'', max_chars = 8\<rparr>] \<and>
   get_typing_progress
       \<lparr>words = [\<lparr>word = ''Hi'', start_time = 0, end_time = 1 / 2,
                      char_positions = [0, 1 / 6, 1 / 3]\<rparr>,
                   \<lparr>word = ''there'', start_time = 1, end_time = 3 / 2,
                      char_positions = [1, 13 / 12, 7 / 6, 5 / 4, 4 / 3, 17 / 12]\<rparr>],
         line_start_time = 0, line_end_time = 3 / 2, line_text = ''Hi there'', max_chars = 8\<rparr>
       (2 / 5) = 3 \<and>
   get_typing_progress
       \<lparr>words = [\<lparr>word = ''Hi'', start_time = 0, end_time = 1 / 2,
                      char_positions = [0, 1 / 6, 1 / 3]\<rparr>,
                   \<lparr>word = ''there'', start_time = 1, end_time = 3 / 2,
                      char_positions = [1, 13 / 12, 7 / 6, 5 / 4, 4 / 3, 17 / 12]\<rparr>],
         line_start_time = 0, line_end_time = 3 / 2, line_text = ''Hi there'', max_chars = 8\<rparr>
       (1 / 2) = 2"
  by code_simp

section \<open>Animation triggers\<close>

text \<open>
  One word group gives one trigger for each kind of the table that has a keyword in it,
  in table order.
\<close>

lemma mappings_loop_kinds:
  "map trigger_type (mappings_loop d segment_text start M)
     = map fst (filter (\<lambda>(anim_type, data). first_keyword segment_text (anim_keywords data) \<noteq> None) M)"
  by (induction M) (auto split: option.splits)

lemma mappings_loop_member:
  "tr \<in> set (mappings_loop d segment_text start M) \<Longrightarrow>
   trigger_type tr \<in> fst ` set M \<and> trigger_duration tr = d \<and> trigger_start_time tr = start"
  by (induction M) (auto split: option.splits)

lemma groups_loop_member:
  "tr \<in> set (groups_loop A segment_duration i groups) \<Longrightarrow>
   trigger_type tr \<in> fst ` set (animation_mappings A) \<and> trigger_duration tr = animation_duration A"
proof (induction groups arbitrary: i)
  case Nil
  then show ?case by simp
next
  case (Cons g gs)
  then show ?case
    by (auto simp: segment_triggers_def Let_def dest: mappings_loop_member)
qed

lemma analyze_narration_member:
  "tr \<in> set (analyze_narration A narration_text duration) \<Longrightarrow>
   trigger_type tr \<in> fst ` set (animation_mappings A) \<and> trigger_duration tr = animation_duration A"
  by (auto simp: analyze_narration_def Let_def split: if_splits dest: groups_loop_member)

text \<open>
  The keys of the table are not among the names that \<open>create_animation_overlay\<close>
  compares the type with, so no trigger of the analyzer is ever drawn.
\<close>

lemma creator_of_table_keys_all:
  "list_all (\<lambda>k. creator_of k = None) (map fst (animation_mappings init_animator))"
  by code_simp

lemma creator_of_table_keys:
  "k \<in> fst ` set (animation_mappings init_animator) \<Longrightarrow> creator_of k = None"
  using creator_of_table_keys_all by (simp add: list_all_iff del: set_map) (metis set_map)

lemma analyzer_trigger_never_drawn:
  assumes "tr \<in> set (analyze_narration init_animator narration_text duration)"
  shows "create_animation_overlay tr t = Inr None"
proof -
  from analyze_narration_member [OF assms]
  have key: "trigger_type tr \<in> fst ` set (animation_mappings init_animator)"
    and dur: "trigger_duration tr = 2"
    by (simp_all add: init_animator_def)
  from creator_of_table_keys [OF key] dur show ?thesis
    by (simp add: create_animation_overlay_def py_div_def Let_def)
qed

text \<open>
  For a trigger whose type is one of the thirteen animation names and whose duration is
  not zero, the overlay is drawn exactly from the start to the start plus the duration.
\<close>

lemma create_animation_overlay_window:
  assumes "creator_of (trigger_type tr) = Some c" and "trigger_duration tr \<noteq> 0"
  shows "(\<exists>ov. create_animation_overlay tr t = Inr (Some ov)) \<longleftrightarrow>
         trigger_start_time tr \<le> t \<and> t \<le> trigger_start_time tr + trigger_duration tr"
  using assms by (auto simp: create_animation_overlay_def py_div_def Let_def)

text \<open>The triggers of the narration \<open>call the loop\<close> with ten seconds of audio.\<close>

lemma analyze_call_the_loop:
  "analyze_narration init_animator ''call the loop'' 10
     = [\<lparr>trigger_type = ''function'', trigger_start_time = 0, trigger_duration = 2,
          trigger_text = ''call the loop'', trigger_keyword = ''call'',
          trigger_emoji = [CHR 0xF0, CHR 0x9F, CHR 0x94, CHR 0xA7],
          trigger_color = (255, 100, 100)\<rparr>,
        \<lparr>trigger_type = ''loop'', trigger_start_time = 0, trigger_duration = 2,
          trigger_text = ''call the loop'', trigger_keyword = ''loop'',
          trigger_emoji = [CHR 0xF0, CHR 0x9F, CHR 0x94, CHR 0x84],
          trigger_color = (100, 255, 100)\<rparr>]"
  by code_simp

text \<open>
  C3. The narration \<open>call the loop\<close> is one word group of three words; it has a keyword
  of the kind \<open>function\<close> and one of the kind \<open>loop\<close>, and the analyzer emits a trigger
  for each, both for that group and both starting at 0.
\<close>

theorem analyze_narration_two_triggers:
  "map trigger_type (analyze_narration init_animator ''call the loop'' 10) = [''function'', ''loop''] \<and>
   map trigger_keyword (analyze_narration init_animator ''call the loop'' 10) = [''call'', ''loop''] \<and>
   map trigger_text (analyze_narration init_animator ''call the loop'' 10)
     = [''call the loop'', ''call the loop''] \<and>
   map trigger_start_time (analyze_narration init_animator ''call the loop'' 10) = [0, 0]"
  by (simp add: analyze_call_the_loop)

text \<open>
  C7. The first trigger of that narration has type \<open>function\<close>, starts at 0 and lasts 2
  seconds; at 1 second \<open>create_animation_overlay\<close> returns \<open>None\<close> for it.
\<close>

theorem create_animation_overlay_none:
  "hd (analyze_narration init_animator ''call the loop'' 10)
     = \<lparr>trigger_type = ''function'', trigger_start_time = 0, trigger_duration = 2,
          trigger_text = ''call the loop'', trigger_keyword = ''call'',
          trigger_emoji = [CHR 0xF0, CHR 0x9F, CHR 0x94, CHR 0xA7],
          trigger_color = (255, 100, 100)\<rparr> \<and>
   create_animation_overlay
       \<lparr>trigger_type = ''function'', trigger_start_time = 0, trigger_duration = 2,
          trigger_text = ''call the loop'', trigger_keyword = ''call'',
          trigger_emoji = [CHR 0xF0, CHR 0x9F, CHR 0x94, CHR 0xA7],
          trigger_color = (255, 100, 100)\<rparr> 1 = Inr None"
  by (simp add: analyze_call_the_loop create_animation_overlay_def creator_of_def py_div_def)

end
